theory Spec2Isabelle
  imports Complex_Main "HOL-Library.Product_Lexorder"
begin

section \<open>The fallback engine of the Gomoku agent (gomokuagent/agent_v2.py)\<close>

text \<open>
  The class \<open>AdvancedLLMAgent\<close> chooses its move locally when the remote model is not
  available: \<open>_get_strategic_move\<close> asks \<open>_creates_five_in_row\<close> for a winning move,
  then for a move that blocks the opponent, then tries the four centre cells, and at last
  ranks the legal moves with \<open>_evaluate_move\<close>. The names of the methods lose their
  leading underscore here, since an Isabelle name cannot start with one.
\<close>

subsection \<open>Data\<close>

text \<open>
  The source uses two members of the framework's enumeration, \<open>Player.X\<close> and
  \<open>Player.O\<close>, and tests a cell for emptiness with \<open>is not None\<close>: a cell is an
  optional player (\<open>Player_X\<close> and \<open>Player_O\<close> below, \<open>O\<close> being taken by
  the composition of relations). The board is a Python list of rows, each a list of cells; a move is a
  tuple of two Python integers.
\<close>

datatype player = Player_X | Player_O

type_synonym cell = "player option"
type_synonym board = "cell list list"
type_synonym move = "int \<times> int"

datatype error = IndexError

subsection \<open>Python subscripts\<close>

text \<open>
  \<open>xs[i]\<close> counts a negative index from the end of the list and raises
  \<open>IndexError\<close> outside \<open>-len(xs) \<le> i < len(xs)\<close>.
\<close>

definition py_index :: "nat \<Rightarrow> int \<Rightarrow> error + nat" where
  "py_index n i =
     (let j = (if i < 0 then i + int n else i)
      in if 0 \<le> j \<and> j < int n then Inr (nat j) else Inl IndexError)"

definition getitem :: "'a list \<Rightarrow> int \<Rightarrow> error + 'a" where
  "getitem xs i = (case py_index (length xs) i of Inl e \<Rightarrow> Inl e | Inr j \<Rightarrow> Inr (xs ! j))"

text \<open>\<open>board[r][c]\<close>, read.\<close>

definition get_cell :: "board \<Rightarrow> int \<Rightarrow> int \<Rightarrow> error + cell" where
  "get_cell board r c = (case getitem board r of Inl e \<Rightarrow> Inl e | Inr rw \<Rightarrow> getitem rw c)"

text \<open>
  \<open>board[r][c] = v\<close>. The rows of the framework's board are distinct lists, so the
  assignment changes one cell of one row and the board is modelled as a value.
\<close>

definition set_cell :: "board \<Rightarrow> int \<Rightarrow> int \<Rightarrow> cell \<Rightarrow> error + board" where
  "set_cell board r c v =
     (case py_index (length board) r of
        Inl e \<Rightarrow> Inl e
      | Inr i \<Rightarrow>
          (case py_index (length (board ! i)) c of
             Inl e \<Rightarrow> Inl e
           | Inr j \<Rightarrow> Inr (board[i := (board ! i)[j := v]])))"

subsection \<open>The win detector\<close>

text \<open>
  The guard of both \<open>while\<close> loops of \<open>_creates_five_in_row\<close>:
  \<open>0 <= r < len(board) and 0 <= c < len(board[0])\<close>. The conjunction is evaluated
  from the left, so \<open>board[0]\<close> is read only when the board has a row.
\<close>

definition in_bounds :: "board \<Rightarrow> int \<Rightarrow> int \<Rightarrow> bool" where
  "in_bounds board r c \<longleftrightarrow>
     0 \<le> r \<and> r < int (length board) \<and> 0 \<le> c \<and> c < int (length (board ! 0))"

text \<open>
  One \<open>while\<close> loop: from \<open>(r, c)\<close>, step by \<open>(sr, sc)\<close> while the cell is inside the
  board and holds the player, adding one to \<open>count\<close> each time. The first loop of the
  source steps by \<open>(dr, dc)\<close>, the second by \<open>(-dr, -dc)\<close>. The step is a parameter, and a
  zero step on a cell of the player would never leave the loop: the result is an option,
  \<open>None\<close> for a loop that does not return. Inside the guard, \<open>board[r][c]\<close> can still
  raise, on a row shorter than the first one.
\<close>

partial_function (option) count_run ::
  "board \<Rightarrow> player \<Rightarrow> int \<Rightarrow> int \<Rightarrow> int \<Rightarrow> int \<Rightarrow> int \<Rightarrow> (error + int) option" where
  "count_run board player sr sc r c count =
     (if in_bounds board r c
      then (case get_cell board r c of
              Inl e \<Rightarrow> Some (Inl e)
            | Inr v \<Rightarrow>
                if v = Some player
                then count_run board player sr sc (r + sr) (c + sc) (count + 1)
                else Some (Inr count))
      else Some (Inr count))"

declare count_run.simps [code]

definition directions :: "(int \<times> int) list" where
  "directions = [(0, 1), (1, 0), (1, 1), (1, -1)]"

text \<open>
  The \<open>for dr, dc in directions\<close> loop, on the board with the stone already placed. It
  returns as soon as one axis counts five or more.
\<close>

fun check_directions ::
  "board \<Rightarrow> int \<Rightarrow> int \<Rightarrow> player \<Rightarrow> (int \<times> int) list \<Rightarrow> (error + bool) option" where
  "check_directions board row col player [] = Some (Inr False)"
| "check_directions board row col player ((dr, dc) # rest) =
     (case count_run board player dr dc (row + dr) (col + dc) 1 of
        None \<Rightarrow> None
      | Some (Inl e) \<Rightarrow> Some (Inl e)
      | Some (Inr count) \<Rightarrow>
          (case count_run board player (- dr) (- dc) (row - dr) (col - dc) count of
             None \<Rightarrow> None
           | Some (Inl e) \<Rightarrow> Some (Inl e)
           | Some (Inr count') \<Rightarrow>
               if count' \<ge> 5 then Some (Inr True)
               else check_directions board row col player rest))"

text \<open>
  \<open>_creates_five_in_row(board, move, player)\<close>. The board is mutated in place, so the
  model returns, beside the outcome, the board as the call leaves it. Both \<open>return\<close>
  statements after the loop are preceded by the same \<open>board[row][col] = None\<close>; an
  exception inside the loop leaves the stone on the board.
\<close>

definition creates_five_in_row ::
  "board \<Rightarrow> move \<Rightarrow> player \<Rightarrow> ((error + bool) \<times> board) option" where
  "creates_five_in_row board move player =
     (case move of (row, col) \<Rightarrow>
        (case get_cell board row col of
           Inl e \<Rightarrow> Some (Inl e, board)
         | Inr v \<Rightarrow>
             if v \<noteq> None then Some (Inr False, board)
             else
               (case set_cell board row col (Some player) of
                  Inl e \<Rightarrow> Some (Inl e, board)
                | Inr board1 \<Rightarrow>
                    (case check_directions board1 row col player directions of
                       None \<Rightarrow> None
                     | Some (Inl e) \<Rightarrow> Some (Inl e, board1)
                     | Some (Inr found) \<Rightarrow>
                         (case set_cell board1 row col None of
                            Inl e \<Rightarrow> Some (Inl e, board1)
                          | Inr board2 \<Rightarrow> Some (Inr found, board2))))))"

subsection \<open>The position scorer\<close>

text \<open>
  The score is a Python float, \<open>row - 3.5\<close> being one. For coordinates on a board
  every value the function computes is a multiple of one half of small size, which the
  floating-point format holds exactly, so the arithmetic is that of the reals.

  The inner loop \<open>for dc in [-1, 0, 1]\<close> and the outer loop \<open>for dr in [-1, 0, 1]\<close>, with
  the running score.
\<close>

fun neighbour_cols :: "board \<Rightarrow> int \<Rightarrow> int \<Rightarrow> int \<Rightarrow> int list \<Rightarrow> real \<Rightarrow> error + real" where
  "neighbour_cols board row col dr [] score = Inr score"
| "neighbour_cols board row col dr (dc # dcs) score =
     (if dr = 0 \<and> dc = 0 then neighbour_cols board row col dr dcs score
      else
        (let r = row + dr; c = col + dc
         in if in_bounds board r c
            then (case get_cell board r c of
                    Inl e \<Rightarrow> Inl e
                  | Inr v \<Rightarrow>
                      neighbour_cols board row col dr dcs
                        (if v \<noteq> None then score + 2 else score))
            else neighbour_cols board row col dr dcs score))"

fun neighbour_rows :: "board \<Rightarrow> int \<Rightarrow> int \<Rightarrow> int list \<Rightarrow> real \<Rightarrow> error + real" where
  "neighbour_rows board row col [] score = Inr score"
| "neighbour_rows board row col (dr # drs) score =
     (case neighbour_cols board row col dr [-1, 0, 1] score of
        Inl e \<Rightarrow> Inl e
      | Inr score' \<Rightarrow> neighbour_rows board row col drs score')"

text \<open>\<open>_evaluate_move(board, move, player)\<close>.\<close>

definition evaluate_move :: "board \<Rightarrow> move \<Rightarrow> player \<Rightarrow> error + real" where
  "evaluate_move board move player =
     (case move of (row, col) \<Rightarrow>
        (let score = 0;
             center_distance = \<bar>real_of_int row - 7 / 2\<bar> + \<bar>real_of_int col - 7 / 2\<bar>;
             score = score + max 0 (7 - center_distance)
         in neighbour_rows board row col [-1, 0, 1] score))"

subsection \<open>The fallback move selector\<close>

text \<open>
  The loop \<open>for move in legal_moves: if self._creates_five_in_row(board, move, p): return
  move\<close>, which the selector runs for the player and then for the opponent. The result
  \<open>Inr None\<close> is a loop that ends without returning.
\<close>

fun first_five ::
  "board \<Rightarrow> player \<Rightarrow> move list \<Rightarrow> ((error + move option) \<times> board) option" where
  "first_five board p [] = Some (Inr None, board)"
| "first_five board p (m # ms) =
     (case creates_five_in_row board m p of
        None \<Rightarrow> None
      | Some (Inl e, board') \<Rightarrow> Some (Inl e, board')
      | Some (Inr found, board') \<Rightarrow>
          if found then Some (Inr (Some m), board') else first_five board' p ms)"

text \<open>\<open>Player.O if my_player == Player.X else Player.X\<close>\<close>

definition opp_player :: "player \<Rightarrow> player" where
  "opp_player my_player = (if my_player = Player_X then Player_O else Player_X)"

definition center_moves :: "move list" where
  "center_moves = [(3, 3), (3, 4), (4, 3), (4, 4)]"

text \<open>The loop that fills \<open>scored_moves\<close> with the pairs \<open>(score, move)\<close>.\<close>

fun score_moves :: "board \<Rightarrow> player \<Rightarrow> move list \<Rightarrow> error + (real \<times> move) list" where
  "score_moves board p [] = Inr []"
| "score_moves board p (m # ms) =
     (case evaluate_move board m p of
        Inl e \<Rightarrow> Inl e
      | Inr score \<Rightarrow>
          (case score_moves board p ms of
             Inl e \<Rightarrow> Inl e
           | Inr rest \<Rightarrow> Inr ((score, m) # rest)))"

text \<open>
  \<open>list.sort(reverse=True)\<close>: the list is reversed, sorted by a stable ascending sort
  and reversed again. Python compares the tuples \<open>(score, (row, col))\<close> component by
  component from the left, which is the lexicographic order of pairs.
\<close>

definition sort_reverse :: "'a::linorder list \<Rightarrow> 'a list" where
  "sort_reverse xs = rev (sort (rev xs))"

text \<open>
  \<open>_get_strategic_move(game_state)\<close>. The framework's \<open>game_state\<close> gives the list of
  legal moves, the board and the current player; they are the parameters here.
\<close>

definition get_strategic_move ::
  "board \<Rightarrow> move list \<Rightarrow> player \<Rightarrow> ((error + move) \<times> board) option" where
  "get_strategic_move board legal_moves my_player =
     (case first_five board my_player legal_moves of
        None \<Rightarrow> None
      | Some (Inl e, board1) \<Rightarrow> Some (Inl e, board1)
      | Some (Inr (Some m), board1) \<Rightarrow> Some (Inr m, board1)
      | Some (Inr None, board1) \<Rightarrow>
          (case first_five board1 (opp_player my_player) legal_moves of
             None \<Rightarrow> None
           | Some (Inl e, board2) \<Rightarrow> Some (Inl e, board2)
           | Some (Inr (Some m), board2) \<Rightarrow> Some (Inr m, board2)
           | Some (Inr None, board2) \<Rightarrow>
               (case find (\<lambda>m. m \<in> set legal_moves) center_moves of
                  Some m \<Rightarrow> Some (Inr m, board2)
                | None \<Rightarrow>
                    (case score_moves board2 my_player legal_moves of
                       Inl e \<Rightarrow> Some (Inl e, board2)
                     | Inr scored_moves \<Rightarrow>
                         (case getitem (sort_reverse scored_moves) 0 of
                            Inl e \<Rightarrow> Some (Inl e, board2)
                          | Inr best \<Rightarrow> Some (Inr (snd best), board2))))))"

section \<open>What the claims speak about\<close>

subsection \<open>Boards and cells\<close>

text \<open>
  The framework's board is a grid: every row is as long as the first one (eight rows of
  eight cells in the game this agent plays).
\<close>

definition rectangular :: "board \<Rightarrow> bool" where
  "rectangular board \<longleftrightarrow> (\<forall>rw \<in> set board. length rw = length (board ! 0))"

text \<open>
  The cell at a coordinate pair, \<open>None\<close> outside the board. No index is negative here:
  a coordinate names one cell or none.
\<close>

definition cell_at :: "board \<Rightarrow> int \<Rightarrow> int \<Rightarrow> cell option" where
  "cell_at board r c =
     (if 0 \<le> r \<and> r < int (length board) \<and> 0 \<le> c \<and> c < int (length (board ! nat r))
      then Some (board ! nat r ! nat c) else None)"

definition on_board :: "board \<Rightarrow> move \<Rightarrow> bool" where
  "on_board board m \<longleftrightarrow> cell_at board (fst m) (snd m) \<noteq> None"

text \<open>The board with the player's stone put on the cell of the move.\<close>

definition place :: "board \<Rightarrow> move \<Rightarrow> player \<Rightarrow> board" where
  "place board m p =
     board[nat (fst m) := (board ! nat (fst m))[nat (snd m) := Some p]]"

subsection \<open>Runs of five\<close>

text \<open>
  A run through the cell \<open>m\<close> along the axis \<open>d\<close>: the cells at the offsets \<open>lo\<close> to
  \<open>hi\<close> from \<open>m\<close>, the offset \<open>0\<close> among them, all on the board and all holding the
  player. It has \<open>hi - lo + 1\<close> cells. A move makes five when some axis has such a run of
  five cells or more.
\<close>

definition run_through :: "board \<Rightarrow> player \<Rightarrow> move \<Rightarrow> int \<times> int \<Rightarrow> int \<Rightarrow> int \<Rightarrow> bool" where
  "run_through board p m d lo hi \<longleftrightarrow>
     lo \<le> 0 \<and> 0 \<le> hi \<and>
     (\<forall>i \<in> {lo..hi}. cell_at board (fst m + i * fst d) (snd m + i * snd d) = Some (Some p))"

definition five_through :: "board \<Rightarrow> player \<Rightarrow> move \<Rightarrow> bool" where
  "five_through board p m \<longleftrightarrow>
     (\<exists>d \<in> {(0, 1), (1, 0), (1, 1), (1, -1)}. \<exists>lo hi.
        run_through board p m d lo hi \<and> 5 \<le> hi - lo + 1)"

text \<open>
  What a loop of the win detector sees at a coordinate: the guard holds and the read gives
  the player's stone. A step of the scan moves by one cell at most in each coordinate and
  is not zero.
\<close>

definition stone_at :: "board \<Rightarrow> player \<Rightarrow> int \<Rightarrow> int \<Rightarrow> bool" where
  "stone_at board p r c \<longleftrightarrow> in_bounds board r c \<and> get_cell board r c = Inr (Some p)"

definition unit_step :: "int \<Rightarrow> int \<Rightarrow> bool" where
  "unit_step sr sc \<longleftrightarrow> \<bar>sr\<bar> \<le> 1 \<and> \<bar>sc\<bar> \<le> 1 \<and> (sr \<noteq> 0 \<or> sc \<noteq> 0)"

text \<open>The win detector returns true for the move.\<close>

definition would_win :: "board \<Rightarrow> move \<Rightarrow> player \<Rightarrow> bool" where
  "would_win board m p \<longleftrightarrow> map_option fst (creates_five_in_row board m p) = Some (Inr True)"

subsection \<open>The score as the specification words it\<close>

text \<open>
  The eight neighbours of a cell, the centrality term
  \<open>max(0, 7 - (|row - 3.5| + |col - 3.5|))\<close> and the density term, \<open>2\<close> for each
  neighbour that is on the board and holds a stone of either player.
\<close>

definition moore :: "(int \<times> int) list" where
  "moore = [(-1, -1), (-1, 0), (-1, 1), (0, -1), (0, 1), (1, -1), (1, 0), (1, 1)]"

definition occupied :: "board \<Rightarrow> int \<Rightarrow> int \<Rightarrow> bool" where
  "occupied board r c \<longleftrightarrow>
     (case cell_at board r c of Some (Some p) \<Rightarrow> True | _ \<Rightarrow> False)"

definition centrality :: "move \<Rightarrow> real" where
  "centrality m = max 0 (7 - (\<bar>real_of_int (fst m) - 7 / 2\<bar> + \<bar>real_of_int (snd m) - 7 / 2\<bar>))"

definition density :: "board \<Rightarrow> move \<Rightarrow> real" where
  "density board m =
     sum_list (map (\<lambda>d. if occupied board (fst m + fst d) (snd m + snd d) then 2 else 0) moore)"

definition spec_score :: "board \<Rightarrow> move \<Rightarrow> real" where
  "spec_score board m = centrality m + density board m"

subsection \<open>Positions\<close>

text \<open>
  Modelled from the spec: the framework's \<open>get_legal_moves\<close> is not part of the
  sources; the specification calls the legal-move set all currently empty cells, and
  names row-major order for its enumeration.
\<close>

definition empty_cells :: "board \<Rightarrow> move list" where
  "empty_cells board =
     concat (map (\<lambda>r. concat (map (\<lambda>c. if board ! r ! c = None then [(int r, int c)] else [])
                                   [0..<length (board ! r)]))
                 [0..<length board])"

definition empty_board :: board where
  "empty_board = replicate 8 (replicate 8 None)"

text \<open>The player holds \<open>(3,3)\<close>, \<open>(3,4)\<close>, \<open>(3,5)\<close> and \<open>(3,6)\<close>; both ends are open.\<close>

definition row_of_four :: "player \<Rightarrow> board" where
  "row_of_four p =
     empty_board[3 := [None, None, None, Some p, Some p, Some p, Some p, None]]"

text \<open>The four centre cells are taken, two by each player.\<close>

definition centre_taken :: board where
  "centre_taken =
     empty_board[3 := [None, None, None, Some Player_X, Some Player_O, None, None, None],
                 4 := [None, None, None, Some Player_O, Some Player_X, None, None, None]]"

text \<open>One stone, on the first of the centre cells.\<close>

definition centre_one :: board where
  "centre_one = empty_board[3 := [None, None, None, Some Player_X, None, None, None, None]]"

subsection \<open>The tie-break as the specification words it\<close>

text \<open>
  Among the legal moves whose score is the highest, the one that comes first in the
  list of legal moves.
\<close>

definition first_best :: "board \<Rightarrow> move list \<Rightarrow> move option" where
  "first_best board legal =
     (let scores = map (spec_score board) legal;
          best = Max (set scores)
      in map_option snd (find (\<lambda>sm. fst sm = best) (zip scores legal)))"

section \<open>Lemmas\<close>

lemma py_index_nonneg: "0 \<le> i \<Longrightarrow> i < int n \<Longrightarrow> py_index n i = Inr (nat i)"
  by (simp add: py_index_def)

lemma get_cell_rect:
  assumes "rectangular board" "in_bounds board r c"
  shows "get_cell board r c = Inr (board ! nat r ! nat c)"
proof -
  from assms(2) have r: "0 \<le> r" "r < int (length board)" and c: "0 \<le> c" "c < int (length (board ! 0))"
    by (simp_all add: in_bounds_def)
  from r have "board ! nat r \<in> set board" by simp
  with assms(1) have "length (board ! nat r) = length (board ! 0)"
    by (simp add: rectangular_def)
  with r c show ?thesis
    by (simp add: get_cell_def getitem_def py_index_nonneg)
qed

lemma error_unique: "(e :: error) = IndexError"
  by (cases e)

lemma count_run_stop:
  "\<not> stone_at board p r c \<Longrightarrow>
   count_run board p sr sc r c k =
     Some (if in_bounds board r c \<and> get_cell board r c = Inl IndexError
           then Inl IndexError else Inr k)"
  by (subst count_run.simps) (auto simp: stone_at_def error_unique split: sum.splits)

lemma count_run_step:
  "stone_at board p r c \<Longrightarrow>
   count_run board p sr sc r c k = count_run board p sr sc (r + sr) (c + sc) (k + 1)"
  by (subst count_run.simps) (simp add: stone_at_def)

lemma count_run_iter:
  "(\<forall>i<n. stone_at board p (r + int i * sr) (c + int i * sc)) \<Longrightarrow>
   count_run board p sr sc r c k =
     count_run board p sr sc (r + int n * sr) (c + int n * sc) (k + int n)"
proof (induction n arbitrary: r c k)
  case 0
  show ?case by simp
next
  case (Suc n)
  from Suc.prems have first: "stone_at board p r c" by force
  have rest: "\<forall>i<n. stone_at board p ((r + sr) + int i * sr) ((c + sc) + int i * sc)"
  proof (intro allI impI)
    fix i assume "i < n"
    with Suc.prems have "stone_at board p (r + int (Suc i) * sr) (c + int (Suc i) * sc)"
      by blast
    then show "stone_at board p ((r + sr) + int i * sr) ((c + sc) + int i * sc)"
      by (simp add: algebra_simps)
  qed
  show ?case
    using count_run_step [OF first] Suc.IH [OF rest]
    by (simp add: algebra_simps)
qed

lemma outside_rows:
  "r < 0 \<or> int (length board) \<le> r \<Longrightarrow> \<not> in_bounds board r c"
  by (auto simp: in_bounds_def)

lemma outside_cols:
  "c < 0 \<or> int (length (board ! 0)) \<le> c \<Longrightarrow> \<not> in_bounds board r c"
  by (auto simp: in_bounds_def)

lemma leaves_board:
  assumes "unit_step sr sc"
  shows "\<exists>n. \<not> in_bounds board (r + int n * sr) (c + int n * sc)"
proof -
  define h where "h = nat \<bar>r\<bar> + length board + 1"
  define w where "w = nat \<bar>c\<bar> + length (board ! 0) + 1"
  have "sr = 1 \<or> sr = -1 \<or> (sr = 0 \<and> (sc = 1 \<or> sc = -1))"
    using assms unfolding unit_step_def by arith
  then consider "sr = 1" | "sr = -1" | "sc = 1" | "sc = -1"
    by blast
  then show ?thesis
  proof cases
    case 1
    have "int (length board) \<le> r + int h * sr"
      unfolding h_def 1 by (simp; arith?)
    then show ?thesis using outside_rows by blast
  next
    case 2
    have "r + int h * sr < 0"
      unfolding h_def 2 by (simp; arith?)
    then show ?thesis using outside_rows by blast
  next
    case 3
    have "int (length (board ! 0)) \<le> c + int w * sc"
      unfolding w_def 3 by (simp; arith?)
    then show ?thesis using outside_cols by blast
  next
    case 4
    have "c + int w * sc < 0"
      unfolding w_def 4 by (simp; arith?)
    then show ?thesis using outside_cols by blast
  qed
qed

lemma run_length_exists:
  assumes "unit_step sr sc"
  obtains n where "\<forall>i<n. stone_at board p (r + int i * sr) (c + int i * sc)"
    and "\<not> stone_at board p (r + int n * sr) (c + int n * sc)"
proof -
  let ?P = "\<lambda>n. \<not> stone_at board p (r + int n * sr) (c + int n * sc)"
  from leaves_board [OF assms] obtain m
    where "\<not> in_bounds board (r + int m * sr) (c + int m * sc)" by blast
  then have "?P m" by (simp add: stone_at_def)
  then have ex: "\<exists>n. ?P n" ..
  have "?P (Least ?P)" using ex by (rule LeastI_ex)
  moreover have "\<forall>i<Least ?P. \<not> ?P i" using not_less_Least by blast
  ultimately show thesis using that [of "Least ?P"] by blast
qed

lemma count_run_total:
  assumes "unit_step sr sc"
  shows "\<exists>res. count_run board p sr sc r c k = Some res"
proof -
  obtain n where n: "\<forall>i<n. stone_at board p (r + int i * sr) (c + int i * sc)"
    "\<not> stone_at board p (r + int n * sr) (c + int n * sc)"
    using run_length_exists [OF assms] by blast
  show ?thesis
    using count_run_iter [OF n(1)] count_run_stop [OF n(2)] by simp
qed

lemma count_run_rect:
  assumes "rectangular board"
    and "\<forall>i<n. stone_at board p (r + int i * sr) (c + int i * sc)"
    and "\<not> stone_at board p (r + int n * sr) (c + int n * sc)"
  shows "count_run board p sr sc r c k = Some (Inr (k + int n))"
  using count_run_iter [OF assms(2)] count_run_stop [OF assms(3)] get_cell_rect [OF assms(1)]
  by auto

lemma rect_row_length:
  "rectangular board \<Longrightarrow> 0 \<le> r \<Longrightarrow> r < int (length board) \<Longrightarrow>
   length (board ! nat r) = length (board ! 0)"
  by (simp add: rectangular_def)

lemma in_bounds_cell_at:
  "rectangular board \<Longrightarrow> in_bounds board r c \<longleftrightarrow> cell_at board r c \<noteq> None"
  by (auto simp: in_bounds_def cell_at_def rect_row_length)

lemma stone_at_cell_at:
  assumes "rectangular board"
  shows "stone_at board p r c \<longleftrightarrow> cell_at board r c = Some (Some p)"
proof (cases "in_bounds board r c")
  case True
  with assms have "cell_at board r c = Some (board ! nat r ! nat c)"
    by (auto simp: in_bounds_def cell_at_def rect_row_length)
  with True assms show ?thesis
    by (simp add: stone_at_def get_cell_rect)
next
  case False
  with assms show ?thesis
    by (simp add: stone_at_def in_bounds_cell_at)
qed

lemma unit_step_neg: "unit_step sr sc \<Longrightarrow> unit_step (- sr) (- sc)"
  by (simp add: unit_step_def)

lemma axis_total:
  assumes rect: "rectangular board" and step: "unit_step dr dc"
    and here: "stone_at board p row col"
  shows "\<exists>nf nb.
     count_run board p dr dc (row + dr) (col + dc) 1 = Some (Inr (1 + int nf)) \<and>
     count_run board p (- dr) (- dc) (row - dr) (col - dc) (1 + int nf)
       = Some (Inr (1 + int nf + int nb)) \<and>
     (5 \<le> 1 + int nf + int nb \<longleftrightarrow>
        (\<exists>lo hi. run_through board p (row, col) (dr, dc) lo hi \<and> 5 \<le> hi - lo + 1))"
proof -
  obtain nf where nf: "\<forall>i<nf. stone_at board p ((row + dr) + int i * dr) ((col + dc) + int i * dc)"
    "\<not> stone_at board p ((row + dr) + int nf * dr) ((col + dc) + int nf * dc)"
    using run_length_exists [OF step] by blast
  obtain nb where nb: "\<forall>i<nb. stone_at board p ((row - dr) + int i * (- dr)) ((col - dc) + int i * (- dc))"
    "\<not> stone_at board p ((row - dr) + int nb * (- dr)) ((col - dc) + int nb * (- dc))"
    using run_length_exists [OF unit_step_neg [OF step]] by blast
  have fwd: "count_run board p dr dc (row + dr) (col + dc) 1 = Some (Inr (1 + int nf))"
    using count_run_rect [OF rect nf] .
  have bwd: "count_run board p (- dr) (- dc) (row - dr) (col - dc) (1 + int nf)
       = Some (Inr (1 + int nf + int nb))"
    using count_run_rect [OF rect nb] .
  have at: "stone_at board p (row + i * dr) (col + i * dc)" if "- int nb \<le> i" "i \<le> int nf" for i
  proof -
    consider "i = 0" | "0 < i" | "i < 0" by linarith
    then show ?thesis
    proof cases
      case 1
      with here show ?thesis by simp
    next
      case 2
      with that have "nat (i - 1) < nf" by linarith
      with nf(1) have "stone_at board p ((row + dr) + int (nat (i - 1)) * dr) ((col + dc) + int (nat (i - 1)) * dc)"
        by blast
      moreover from 2 have "int (nat (i - 1)) = i - 1" by simp
      ultimately show ?thesis by (simp add: algebra_simps)
    next
      case 3
      with that have "nat (- i - 1) < nb" by linarith
      with nb(1) have "stone_at board p ((row - dr) + int (nat (- i - 1)) * (- dr)) ((col - dc) + int (nat (- i - 1)) * (- dc))"
        by blast
      moreover from 3 have "int (nat (- i - 1)) = - i - 1" by simp
      ultimately show ?thesis by (simp add: algebra_simps)
    qed
  qed
  have iff: "5 \<le> 1 + int nf + int nb \<longleftrightarrow>
        (\<exists>lo hi. run_through board p (row, col) (dr, dc) lo hi \<and> 5 \<le> hi - lo + 1)"
  proof
    assume five: "5 \<le> 1 + int nf + int nb"
    have "run_through board p (row, col) (dr, dc) (- int nb) (int nf)"
      using at by (simp add: run_through_def stone_at_cell_at [OF rect, symmetric])
    with five show "\<exists>lo hi. run_through board p (row, col) (dr, dc) lo hi \<and> 5 \<le> hi - lo + 1"
      by (intro exI [of _ "- int nb"] exI [of _ "int nf"]) simp
  next
    assume "\<exists>lo hi. run_through board p (row, col) (dr, dc) lo hi \<and> 5 \<le> hi - lo + 1"
    then obtain lo hi where run: "run_through board p (row, col) (dr, dc) lo hi"
      and len: "5 \<le> hi - lo + 1" by blast
    from run have lo: "lo \<le> 0" and hi: "0 \<le> hi"
      and all: "\<And>i. lo \<le> i \<Longrightarrow> i \<le> hi \<Longrightarrow> stone_at board p (row + i * dr) (col + i * dc)"
      by (simp_all add: run_through_def stone_at_cell_at [OF rect])
    have "hi \<le> int nf"
    proof (rule ccontr)
      assume "\<not> hi \<le> int nf"
      with lo have "lo \<le> int nf + 1" "int nf + 1 \<le> hi" by linarith+
      then have "stone_at board p (row + (int nf + 1) * dr) (col + (int nf + 1) * dc)"
        by (rule all)
      with nf(2) show False by (simp add: algebra_simps)
    qed
    moreover have "- int nb \<le> lo"
    proof (rule ccontr)
      assume "\<not> - int nb \<le> lo"
      with hi have "lo \<le> - int nb - 1" "- int nb - 1 \<le> hi" by linarith+
      then have "stone_at board p (row + (- int nb - 1) * dr) (col + (- int nb - 1) * dc)"
        by (rule all)
      with nb(2) show False by (simp add: algebra_simps)
    qed
    ultimately show "5 \<le> 1 + int nf + int nb" using len by linarith
  qed
  from fwd bwd iff show ?thesis by blast
qed

lemma getitem_Inr:
  "getitem xs i = Inr v \<Longrightarrow> \<exists>j. py_index (length xs) i = Inr j \<and> j < length xs \<and> v = xs ! j"
  by (auto simp: getitem_def py_index_def Let_def split: if_splits)

lemma get_cell_Inr:
  assumes "get_cell board r c = Inr v"
  obtains i j where "py_index (length board) r = Inr i" "i < length board"
    "py_index (length (board ! i)) c = Inr j" "j < length (board ! i)" "v = board ! i ! j"
proof -
  from assms obtain rw where rw: "getitem board r = Inr rw" and v: "getitem rw c = Inr v"
    by (auto simp: get_cell_def split: sum.splits)
  from getitem_Inr [OF rw] obtain i where i: "py_index (length board) r = Inr i" "i < length board" "rw = board ! i"
    by blast
  from getitem_Inr [OF v] obtain j where j: "py_index (length rw) c = Inr j" "j < length rw" "v = rw ! j"
    by blast
  from i j show thesis using that by simp
qed

lemma set_cell_at:
  "py_index (length board) r = Inr i \<Longrightarrow> py_index (length (board ! i)) c = Inr j \<Longrightarrow>
   set_cell board r c v = Inr (board[i := (board ! i)[j := v]])"
  by (simp add: set_cell_def)

lemma directions_unit: "\<forall>d \<in> set directions. unit_step (fst d) (snd d)"
  by (simp add: directions_def unit_step_def)

lemma check_directions_total:
  "\<forall>d \<in> set ds. unit_step (fst d) (snd d) \<Longrightarrow>
   \<exists>res. check_directions board row col p ds = Some res"
proof (induction ds)
  case Nil
  show ?case by simp
next
  case (Cons d ds)
  obtain dr dc where d: "d = (dr, dc)" by (cases d)
  from Cons.prems d have step: "unit_step dr dc" by simp
  from Cons have rest: "\<exists>res. check_directions board row col p ds = Some res" by simp
  obtain r1 where r1: "count_run board p dr dc (row + dr) (col + dc) 1 = Some r1"
    using count_run_total [OF step] by blast
  show ?case
  proof (cases r1)
    case (Inl e)
    with r1 d show ?thesis by simp
  next
    case (Inr count)
    obtain r2 where r2: "count_run board p (- dr) (- dc) (row - dr) (col - dc) count = Some r2"
      using count_run_total [OF unit_step_neg [OF step]] by blast
    show ?thesis
      using r1 Inr r2 d rest by (cases r2) auto
  qed
qed

lemma creates_five_in_row_frame:
  "\<exists>res board'. creates_five_in_row board move p = Some (res, board') \<and>
     (\<forall>found. res = Inr found \<longrightarrow> board' = board)"
proof -
  obtain row col where move: "move = (row, col)" by (cases move)
  show ?thesis
  proof (cases "get_cell board row col")
    case (Inl e)
    with move show ?thesis by (simp add: creates_five_in_row_def)
  next
    case (Inr v)
    show ?thesis
    proof (cases "v = None")
      case False
      with Inr move show ?thesis by (simp add: creates_five_in_row_def)
    next
      case True
      from get_cell_Inr [OF Inr] obtain i j where ij: "py_index (length board) row = Inr i"
        "i < length board" "py_index (length (board ! i)) col = Inr j" "j < length (board ! i)"
        "v = board ! i ! j" by blast
      define board1 where "board1 = board[i := (board ! i)[j := Some p]]"
      have put: "set_cell board row col (Some p) = Inr board1"
        unfolding board1_def using ij by (simp add: set_cell_at)
      have "set_cell board1 row col None = Inr (board1[i := (board1 ! i)[j := None]])"
        using ij by (intro set_cell_at) (simp_all add: board1_def)
      moreover have "board1[i := (board1 ! i)[j := None]] = board"
      proof -
        from ij True have "(board ! i)[j := None] = board ! i"
          by (metis list_update_id)
        with ij show ?thesis by (simp add: board1_def)
      qed
      ultimately have undo: "set_cell board1 row col None = Inr board" by simp
      obtain res where res: "check_directions board1 row col p directions = Some res"
        using check_directions_total [OF directions_unit] by blast
      show ?thesis
        using Inr True put res undo move
        by (cases res) (simp_all add: creates_five_in_row_def)
    qed
  qed
qed

lemma check_directions_rect:
  assumes "rectangular board" "stone_at board p row col"
  shows "\<forall>d \<in> set ds. unit_step (fst d) (snd d) \<Longrightarrow>
    check_directions board row col p ds =
      Some (Inr (\<exists>d \<in> set ds. \<exists>lo hi.
                   run_through board p (row, col) d lo hi \<and> 5 \<le> hi - lo + 1))"
proof (induction ds)
  case Nil
  show ?case by simp
next
  case (Cons d ds)
  obtain dr dc where d: "d = (dr, dc)" by (cases d)
  from Cons.prems d have step: "unit_step dr dc" by simp
  from axis_total [OF assms(1) step assms(2)] obtain nf nb where
    fwd: "count_run board p dr dc (row + dr) (col + dc) 1 = Some (Inr (1 + int nf))" and
    bwd: "count_run board p (- dr) (- dc) (row - dr) (col - dc) (1 + int nf)
       = Some (Inr (1 + int nf + int nb))" and
    iff: "5 \<le> 1 + int nf + int nb \<longleftrightarrow>
        (\<exists>lo hi. run_through board p (row, col) (dr, dc) lo hi \<and> 5 \<le> hi - lo + 1)"
    by blast
  from Cons have IH: "check_directions board row col p ds =
      Some (Inr (\<exists>d \<in> set ds. \<exists>lo hi.
                   run_through board p (row, col) d lo hi \<and> 5 \<le> hi - lo + 1))" by simp
  show ?case
  proof (cases "5 \<le> 1 + int nf + int nb")
    case True
    with iff fwd bwd d show ?thesis by auto
  next
    case False
    with iff fwd bwd d IH show ?thesis by auto
  qed
qed

lemma place_rectangular:
  assumes "rectangular board"
  shows "rectangular (place board m p)"
proof -
  let ?i = "nat (fst m)"
  let ?rw = "(board ! ?i)[nat (snd m) := Some p]"
  show ?thesis
  proof (cases "?i < length board")
    case False
    with assms show ?thesis by (simp add: place_def list_update_beyond)
  next
    case True
    then have len: "length ?rw = length (board ! 0)"
      using assms by (simp add: rectangular_def)
    have zero: "length (place board m p ! 0) = length (board ! 0)"
      using True by (cases "?i") (simp_all add: place_def)
    have "set (place board m p) \<subseteq> insert ?rw (set board)"
      unfolding place_def by (rule set_update_subset_insert)
    with assms len zero show ?thesis
      by (auto simp: rectangular_def)
  qed
qed

lemma place_in_bounds: "in_bounds (place board m p) r c = in_bounds board r c"
proof -
  have "length (place board m p ! 0) = length (board ! 0)"
    by (cases "nat (fst m) < length board"; cases "nat (fst m)") (simp_all add: place_def)
  then show ?thesis by (simp add: in_bounds_def place_def)
qed

lemma creates_five_in_row_rect:
  assumes rect: "rectangular board" and on: "on_board board m"
    and empty: "cell_at board (fst m) (snd m) = Some None"
  shows "creates_five_in_row board m p = Some (Inr (five_through (place board m p) p m), board)"
proof -
  obtain row col where m: "m = (row, col)" by (cases m)
  from on m rect have inb: "in_bounds board row col"
    by (simp add: on_board_def in_bounds_cell_at)
  then have r: "0 \<le> row" "row < int (length board)" and c: "0 \<le> col" "col < int (length (board ! 0))"
    by (simp_all add: in_bounds_def)
  have rowlen: "length (board ! nat row) = length (board ! 0)"
    using rect r by (rule rect_row_length)
  from empty m r c rowlen have none: "board ! nat row ! nat col = None"
    by (simp add: cell_at_def)
  have get: "get_cell board row col = Inr None"
    using get_cell_rect [OF rect inb] none by simp
  have ir: "py_index (length board) row = Inr (nat row)"
    using r by (simp add: py_index_nonneg)
  have ic: "py_index (length (board ! nat row)) col = Inr (nat col)"
    using c rowlen by (simp add: py_index_nonneg)
  let ?b1 = "place board m p"
  have put: "set_cell board row col (Some p) = Inr ?b1"
    using set_cell_at [OF ir ic] m by (simp add: place_def)
  have rect1: "rectangular ?b1" using rect by (rule place_rectangular)
  have inb1: "in_bounds ?b1 row col" using inb by (simp add: place_in_bounds)
  have "?b1 ! nat row ! nat col = Some p"
    using r c rowlen m by (simp add: place_def)
  with get_cell_rect [OF rect1 inb1] inb1 have stone: "stone_at ?b1 p row col"
    by (simp add: stone_at_def)
  have chk: "check_directions ?b1 row col p directions =
      Some (Inr (five_through ?b1 p m))"
    using check_directions_rect [OF rect1 stone directions_unit] m
    by (simp add: five_through_def directions_def)
  have "py_index (length ?b1) row = Inr (nat row)"
    using ir by (simp add: place_def)
  moreover have "py_index (length (?b1 ! nat row)) col = Inr (nat col)"
    using ic r m by (simp add: place_def)
  ultimately obtain board2 where undo: "set_cell ?b1 row col None = Inr board2"
    using set_cell_at by blast
  from creates_five_in_row_frame [of board m p] obtain res board' where
    fr: "creates_five_in_row board m p = Some (res, board')" "\<forall>found. res = Inr found \<longrightarrow> board' = board"
    by blast
  from fr(1) get put chk undo m have "res = Inr (five_through ?b1 p m)"
    by (auto simp: creates_five_in_row_def)
  with fr show ?thesis by simp
qed

lemma occupied_rect:
  assumes "rectangular board" "in_bounds board r c"
  shows "get_cell board r c = Inr (board ! nat r ! nat c)"
    and "occupied board r c \<longleftrightarrow> board ! nat r ! nat c \<noteq> None"
proof -
  show "get_cell board r c = Inr (board ! nat r ! nat c)"
    using assms by (rule get_cell_rect)
  from assms have "cell_at board r c = Some (board ! nat r ! nat c)"
    by (auto simp: in_bounds_def cell_at_def rect_row_length)
  then show "occupied board r c \<longleftrightarrow> board ! nat r ! nat c \<noteq> None"
    by (cases "board ! nat r ! nat c") (simp_all add: occupied_def)
qed

lemma not_occupied_outside:
  "rectangular board \<Longrightarrow> \<not> in_bounds board r c \<Longrightarrow> \<not> occupied board r c"
  by (simp add: in_bounds_cell_at occupied_def)

lemma neighbour_cols_rect:
  assumes "rectangular board"
  shows "neighbour_cols board row col dr dcs score =
     Inr (score + sum_list (map (\<lambda>dc. if \<not> (dr = 0 \<and> dc = 0) \<and> occupied board (row + dr) (col + dc)
                                      then 2 else 0) dcs))"
proof (induction dcs arbitrary: score)
  case Nil
  show ?case by simp
next
  case (Cons dc dcs)
  show ?case
  proof (cases "dr = 0 \<and> dc = 0")
    case True
    then show ?thesis using Cons.IH by simp
  next
    case skip: False
    show ?thesis
    proof (cases "in_bounds board (row + dr) (col + dc)")
      case True
      let ?v = "board ! nat (row + dr) ! nat (col + dc)"
      have step: "neighbour_cols board row col dr (dc # dcs) score =
          neighbour_cols board row col dr dcs (if ?v \<noteq> None then score + 2 else score)"
        using skip True occupied_rect(1) [OF assms True] by (auto simp: Let_def)
      show ?thesis
      proof (cases "?v = None")
        case True
        with step skip occupied_rect(2) [OF assms \<open>in_bounds board (row + dr) (col + dc)\<close>]
        show ?thesis by (auto simp: Cons.IH)
      next
        case False
        with step skip occupied_rect(2) [OF assms \<open>in_bounds board (row + dr) (col + dc)\<close>]
        show ?thesis by (auto simp: Cons.IH)
      qed
    next
      case False
      then have "neighbour_cols board row col dr (dc # dcs) score =
          neighbour_cols board row col dr dcs score"
        using skip by (auto simp: Let_def)
      with skip not_occupied_outside [OF assms False] show ?thesis
        by (auto simp: Cons.IH)
    qed
  qed
qed

lemma evaluate_move_rect:
  assumes "rectangular board"
  shows "evaluate_move board m p = Inr (spec_score board m)"
proof -
  obtain row col where m: "m = (row, col)" by (cases m)
  show ?thesis
    unfolding m evaluate_move_def spec_score_def centrality_def density_def moore_def
    by (simp add: neighbour_cols_rect [OF assms] Let_def add.assoc
          del: neighbour_cols.simps split del: if_split)
qed

lemma creates_five_in_row_returns:
  assumes rect: "rectangular board" and on: "on_board board m"
  shows "creates_five_in_row board m p = Some (Inr (would_win board m p), board)"
proof -
  obtain row col where m: "m = (row, col)" by (cases m)
  from on m rect have inb: "in_bounds board row col"
    by (simp add: on_board_def in_bounds_cell_at)
  then have cell: "cell_at board row col = Some (board ! nat row ! nat col)"
    using rect by (auto simp: in_bounds_def cell_at_def rect_row_length)
  have "\<exists>found. creates_five_in_row board m p = Some (Inr found, board)"
  proof (cases "board ! nat row ! nat col")
    case None
    with cell m have "cell_at board (fst m) (snd m) = Some None" by simp
    from creates_five_in_row_rect [OF rect on this] show ?thesis by blast
  next
    case (Some q)
    with get_cell_rect [OF rect inb] m
    have "creates_five_in_row board m p = Some (Inr False, board)"
      by (simp add: creates_five_in_row_def)
    then show ?thesis by blast
  qed
  then show ?thesis by (auto simp: would_win_def)
qed

lemma first_five_rect:
  assumes "rectangular board"
  shows "\<forall>m \<in> set ms. on_board board m \<Longrightarrow>
    first_five board p ms = Some (Inr (find (\<lambda>m. would_win board m p) ms), board)"
proof (induction ms)
  case Nil
  show ?case by simp
next
  case (Cons m ms)
  then have "on_board board m" by simp
  from creates_five_in_row_returns [OF assms this]
  have "creates_five_in_row board m p = Some (Inr (would_win board m p), board)" .
  with Cons show ?case by simp
qed

lemma first_five_member:
  "first_five board p ms = Some (Inr (Some m), board') \<Longrightarrow> m \<in> set ms"
proof (induction ms arbitrary: board)
  case Nil
  then show ?case by simp
next
  case (Cons a ms)
  from Cons.prems obtain res b1 where
    a: "creates_five_in_row board a p = Some (res, b1)"
    by (cases "creates_five_in_row board a p") auto
  show ?case
  proof (cases res)
    case (Inl e)
    with a Cons.prems show ?thesis by simp
  next
    case (Inr found)
    show ?thesis
    proof (cases found)
      case True
      with a Inr Cons.prems show ?thesis by simp
    next
      case False
      with a Inr Cons.prems have "first_five b1 p ms = Some (Inr (Some m), board')" by simp
      then have "m \<in> set ms" by (rule Cons.IH)
      then show ?thesis by simp
    qed
  qed
qed

lemma score_moves_rect:
  "rectangular board \<Longrightarrow>
   score_moves board p ms = Inr (map (\<lambda>m. (spec_score board m, m)) ms)"
  by (induction ms) (simp_all add: evaluate_move_rect)

lemma score_moves_member:
  "score_moves board p ms = Inr scored \<Longrightarrow> map snd scored = ms"
  by (induction ms arbitrary: scored) (auto split: sum.splits)

lemma sorted_le_last:
  fixes ys :: "'a::linorder list"
  shows "sorted ys \<Longrightarrow> y \<in> set ys \<Longrightarrow> y \<le> last ys"
  by (induction ys) auto

lemma getitem_first: "getitem xs 0 = (if xs = [] then Inl IndexError else Inr (hd xs))"
  by (cases xs) (simp_all add: getitem_def py_index_def)

lemma sort_reverse_first:
  fixes xs :: "'a::linorder list"
  shows "getitem (sort_reverse xs) 0 = (if xs = [] then Inl IndexError else Inr (Max (set xs)))"
proof (cases "xs = []")
  case True
  then show ?thesis by (simp add: getitem_first sort_reverse_def)
next
  case False
  let ?ys = "sort (rev xs)"
  from False have ne: "?ys \<noteq> []" by (metis length_sort length_rev length_0_conv)
  have "last ?ys = Max (set ?ys)"
  proof (rule Max_eqI [symmetric])
    show "finite (set ?ys)" by simp
    show "last ?ys \<in> set ?ys" using ne by (rule last_in_set)
    fix y assume "y \<in> set ?ys"
    with sorted_sort [of "rev xs"] show "y \<le> last ?ys"
      by (rule sorted_le_last)
  qed
  then have "hd (sort_reverse xs) = Max (set xs)"
    using ne by (simp add: sort_reverse_def hd_rev)
  with False ne show ?thesis
    by (simp add: getitem_first sort_reverse_def)
qed

lemma get_strategic_move_rect:
  assumes rect: "rectangular board" and legal: "\<forall>m \<in> set legal. on_board board m"
  shows "get_strategic_move board legal p =
    Some (case find (\<lambda>m. would_win board m p) legal of
            Some m \<Rightarrow> Inr m
          | None \<Rightarrow>
              (case find (\<lambda>m. would_win board m (opp_player p)) legal of
                 Some m \<Rightarrow> Inr m
               | None \<Rightarrow>
                   (case find (\<lambda>m. m \<in> set legal) center_moves of
                      Some m \<Rightarrow> Inr m
                    | None \<Rightarrow>
                        if legal = [] then Inl IndexError
                        else Inr (snd (Max (set (map (\<lambda>m. (spec_score board m, m)) legal)))))),
          board)"
  unfolding get_strategic_move_def
  by (simp add: first_five_rect [OF rect legal] score_moves_rect [OF rect] sort_reverse_first
        split: option.splits)

lemma find_first:
  "find P xs = Some x \<Longrightarrow> \<exists>pre post. xs = pre @ x # post \<and> P x \<and> (\<forall>y \<in> set pre. \<not> P y)"
proof (induction xs)
  case Nil
  then show ?case by simp
next
  case (Cons a xs)
  show ?case
  proof (cases "P a")
    case True
    with Cons.prems have "a = x" by simp
    with True have "a # xs = [] @ x # xs \<and> P x \<and> (\<forall>y \<in> set []. \<not> P y)" by simp
    then show ?thesis by blast
  next
    case False
    with Cons obtain pre post where "xs = pre @ x # post" "P x" "\<forall>y \<in> set pre. \<not> P y"
      by auto
    with False have "a # xs = (a # pre) @ x # post \<and> P x \<and> (\<forall>y \<in> set (a # pre). \<not> P y)"
      by simp
    then show ?thesis by blast
  qed
qed

lemma find_exists: "\<exists>x \<in> set xs. P x \<Longrightarrow> \<exists>x. find P xs = Some x"
  by (cases "find P xs") (auto simp: find_None_iff)

subsection \<open>The stages of the selector\<close>

lemma find_append_first:
  "(\<forall>y \<in> set pre. \<not> P y) \<Longrightarrow> P x \<Longrightarrow> find P (pre @ x # post) = Some x"
  by (induction pre) simp_all

lemma find_none: "(\<forall>x \<in> set xs. \<not> P x) \<Longrightarrow> find P xs = None"
  by (simp add: find_None_iff)

lemma best_move_rect:
  fixes board :: board and legal :: "move list"
  defines "best \<equiv> snd (Max (set (map (\<lambda>m. (spec_score board m, m)) legal)))"
  assumes "legal \<noteq> []"
  shows "best \<in> set legal"
    and "\<forall>m' \<in> set legal.
           spec_score board m' < spec_score board best \<or>
           (spec_score board m' = spec_score board best \<and>
            (fst m' < fst best \<or> (fst m' = fst best \<and> snd m' \<le> snd best)))"
proof -
  let ?S = "set (map (\<lambda>m. (spec_score board m, m)) legal)"
  have fin: "finite ?S" by simp
  have ne: "?S \<noteq> {}" using assms(2) by simp
  from Max_in [OF fin ne] obtain m where m: "m \<in> set legal" "Max ?S = (spec_score board m, m)"
    by auto
  then have best: "best = m" by (simp add: best_def)
  with m show "best \<in> set legal" by simp
  show "\<forall>m' \<in> set legal.
           spec_score board m' < spec_score board best \<or>
           (spec_score board m' = spec_score board best \<and>
            (fst m' < fst best \<or> (fst m' = fst best \<and> snd m' \<le> snd best)))"
  proof
    fix m' assume "m' \<in> set legal"
    then have "(spec_score board m', m') \<in> ?S" by auto
    from Max_ge [OF fin this] m(2) have "(spec_score board m', m') \<le> (spec_score board m, m)"
      by simp
    then show "spec_score board m' < spec_score board best \<or>
           (spec_score board m' = spec_score board best \<and>
            (fst m' < fst best \<or> (fst m' = fst best \<and> snd m' \<le> snd best)))"
      unfolding best by (auto simp: less_eq_prod_def)
  qed
qed

lemma selector_win:
  assumes "rectangular board" "\<forall>m \<in> set legal. on_board board m"
    and "find (\<lambda>m. would_win board m p) legal = Some m"
  shows "get_strategic_move board legal p = Some (Inr m, board)"
  using assms(3) by (simp add: get_strategic_move_rect [OF assms(1,2)])

lemma selector_block:
  assumes "rectangular board" "\<forall>m \<in> set legal. on_board board m"
    and "find (\<lambda>m. would_win board m p) legal = None"
    and "find (\<lambda>m. would_win board m (opp_player p)) legal = Some m"
  shows "get_strategic_move board legal p = Some (Inr m, board)"
  using assms(3,4) by (simp add: get_strategic_move_rect [OF assms(1,2)])

lemma selector_center:
  assumes "rectangular board" "\<forall>m \<in> set legal. on_board board m"
    and "find (\<lambda>m. would_win board m p) legal = None"
    and "find (\<lambda>m. would_win board m (opp_player p)) legal = None"
    and "find (\<lambda>m. m \<in> set legal) center_moves = Some m"
  shows "get_strategic_move board legal p = Some (Inr m, board)"
  using assms(3,4,5) by (simp add: get_strategic_move_rect [OF assms(1,2)])

lemma selector_best:
  assumes "rectangular board" "\<forall>m \<in> set legal. on_board board m"
    and "find (\<lambda>m. would_win board m p) legal = None"
    and "find (\<lambda>m. would_win board m (opp_player p)) legal = None"
    and "find (\<lambda>m. m \<in> set legal) center_moves = None"
    and "legal \<noteq> []"
  shows "get_strategic_move board legal p =
    Some (Inr (snd (Max (set (map (\<lambda>m. (spec_score board m, m)) legal)))), board)"
  using assms(3,4,5,6) by (simp add: get_strategic_move_rect [OF assms(1,2)])

lemma selector_empty: "get_strategic_move board [] p = Some (Inl IndexError, board)"
  by (simp add: get_strategic_move_def center_moves_def sort_reverse_def getitem_first)

lemma selector_member:
  assumes "get_strategic_move board legal p = Some (Inr m, board')"
  shows "m \<in> set legal"
proof -
  from assms obtain r1 b1 where f1: "first_five board p legal = Some (r1, b1)"
    by (cases "first_five board p legal") (auto simp: get_strategic_move_def)
  show ?thesis
  proof (cases r1)
    case (Inl e)
    with f1 assms show ?thesis by (simp add: get_strategic_move_def)
  next
    case r1: (Inr o1)
    show ?thesis
    proof (cases o1)
      case (Some m1)
      with f1 r1 assms have "m = m1" by (simp add: get_strategic_move_def)
      with f1 r1 Some first_five_member show ?thesis by blast
    next
      case n1: None
      from assms f1 r1 n1 obtain r2 b2 where
        f2: "first_five b1 (opp_player p) legal = Some (r2, b2)"
        by (cases "first_five b1 (opp_player p) legal") (auto simp: get_strategic_move_def)
      show ?thesis
      proof (cases r2)
        case (Inl e)
        with f1 r1 n1 f2 assms show ?thesis by (simp add: get_strategic_move_def)
      next
        case r2: (Inr o2)
        show ?thesis
        proof (cases o2)
          case (Some m2)
          with f1 r1 n1 f2 r2 assms have "m = m2" by (simp add: get_strategic_move_def)
          with f2 r2 Some first_five_member show ?thesis by blast
        next
          case n2: None
          show ?thesis
          proof (cases "find (\<lambda>m. m \<in> set legal) center_moves")
            case (Some c)
            with f1 r1 n1 f2 r2 n2 assms have "m = c" by (simp add: get_strategic_move_def)
            with Some show ?thesis by (auto simp: find_Some_iff)
          next
            case n3: None
            show ?thesis
            proof (cases "score_moves b2 p legal")
              case (Inl e)
              with f1 r1 n1 f2 r2 n2 n3 assms show ?thesis
                by (simp add: get_strategic_move_def)
            next
              case (Inr scored)
              with f1 r1 n1 f2 r2 n2 n3 assms
              have g: "getitem (sort_reverse scored) 0 = Inr (Max (set scored))"
                "scored \<noteq> []" "m = snd (Max (set scored))"
                by (auto simp: get_strategic_move_def sort_reverse_first split: if_splits)
              from g(2) have "Max (set scored) \<in> set scored" by simp
              then have "snd (Max (set scored)) \<in> set (map snd scored)" by simp
              with score_moves_member [OF Inr] g(3) show ?thesis by simp
            qed
          qed
        qed
      qed
    qed
  qed
qed

lemma opp_player_other: "q \<noteq> p \<Longrightarrow> opp_player p = q"
  by (cases p; cases q) (simp_all add: opp_player_def)

subsection \<open>The positions, evaluated\<close>

lemma row_x_rect: "rectangular (row_of_four Player_X)"
  by code_simp

lemma row_x_legal: "\<forall>m \<in> set (empty_cells (row_of_four Player_X)). on_board (row_of_four Player_X) m"
  by code_simp

lemma row_x_first_win:
  "find (\<lambda>m. would_win (row_of_four Player_X) m Player_X) (empty_cells (row_of_four Player_X))
     = Some (3, 2)"
  by code_simp

lemma row_x_no_win_o:
  "\<forall>m \<in> set (empty_cells (row_of_four Player_X)). \<not> would_win (row_of_four Player_X) m Player_O"
  by code_simp

lemma row_o_rect: "rectangular (row_of_four Player_O)"
  by code_simp

lemma row_o_legal: "\<forall>m \<in> set (empty_cells (row_of_four Player_O)). on_board (row_of_four Player_O) m"
  by code_simp

lemma row_o_no_win:
  "\<forall>m \<in> set (empty_cells (row_of_four Player_O)). \<not> would_win (row_of_four Player_O) m Player_X"
  by code_simp

lemma row_o_first_block:
  "find (\<lambda>m. would_win (row_of_four Player_O) m Player_O) (empty_cells (row_of_four Player_O))
     = Some (3, 2)"
  by code_simp

lemma centre_one_rect: "rectangular centre_one"
  by code_simp

lemma centre_one_legal: "\<forall>m \<in> set (empty_cells centre_one). on_board centre_one m"
  by code_simp

lemma centre_one_no_win_x:
  "\<forall>m \<in> set (empty_cells centre_one). \<not> would_win centre_one m Player_X"
  by code_simp

lemma centre_one_no_win_o:
  "\<forall>m \<in> set (empty_cells centre_one). \<not> would_win centre_one m Player_O"
  by code_simp

lemma centre_one_first_centre:
  "find (\<lambda>m. m \<in> set (empty_cells centre_one)) [(3, 3), (3, 4), (4, 3), (4, 4)] = Some (3, 4)"
  by code_simp

lemma centre_taken_rect: "rectangular centre_taken"
  by code_simp

lemma centre_taken_legal: "\<forall>m \<in> set (empty_cells centre_taken). on_board centre_taken m"
  by code_simp

lemma centre_taken_no_win_x:
  "\<forall>m \<in> set (empty_cells centre_taken). \<not> would_win centre_taken m Player_X"
  by code_simp

lemma centre_taken_no_win_o:
  "\<forall>m \<in> set (empty_cells centre_taken). \<not> would_win centre_taken m Player_O"
  by code_simp

lemma centre_taken_no_centre:
  "\<forall>c \<in> set center_moves. c \<notin> set (empty_cells centre_taken)"
  by code_simp

lemma centre_taken_some_move: "empty_cells centre_taken \<noteq> []"
  by code_simp

lemma centre_taken_best:
  "snd (Max (set (map (\<lambda>m. (spec_score centre_taken m, m)) (empty_cells centre_taken)))) = (5, 4)"
  by code_simp

lemma centre_taken_first_best: "first_best centre_taken (empty_cells centre_taken) = Some (2, 3)"
  by code_simp

section \<open>The win detector\<close>

text \<open>
  C1. On a grid, for a move on an empty cell of the board, \<open>_creates_five_in_row\<close>
  returns true exactly when the board with the player's stone placed on that cell has,
  along one of the axes \<open>(0,1)\<close>, \<open>(1,0)\<close>, \<open>(1,1)\<close>, \<open>(1,-1)\<close>, a run of the player's
  stones through the cell of length five or more, the placed stone counted.
\<close>

theorem creates_five_in_row_iff_run:
  assumes "rectangular board" and "cell_at board (fst m) (snd m) = Some None"
  shows "map_option fst (creates_five_in_row board m p) =
           Some (Inr (five_through (place board m p) p m))"
proof -
  from assms(2) have "on_board board m" by (simp add: on_board_def)
  from creates_five_in_row_rect [OF assms(1) this assms(2)] show ?thesis by simp
qed

theorem creates_five_in_row_iff_run_witness:
  "rectangular (row_of_four Player_X) \<and>
   cell_at (row_of_four Player_X) 3 2 = Some None \<and>
   cell_at (row_of_four Player_X) 0 0 = Some None \<and>
   five_through (place (row_of_four Player_X) (3, 2) Player_X) Player_X (3, 2) \<and>
   \<not> five_through (place (row_of_four Player_X) (0, 0) Player_X) Player_X (0, 0)"
proof -
  have rect: "rectangular (row_of_four Player_X)" by code_simp
  have e1: "cell_at (row_of_four Player_X) (fst (3, 2)) (snd (3, 2)) = Some None" by code_simp
  have e2: "cell_at (row_of_four Player_X) (fst (0, 0)) (snd (0, 0)) = Some None" by code_simp
  have r1: "map_option fst (creates_five_in_row (row_of_four Player_X) (3, 2) Player_X)
      = Some (Inr True)" by code_simp
  have r2: "map_option fst (creates_five_in_row (row_of_four Player_X) (0, 0) Player_X)
      = Some (Inr False)" by code_simp
  from creates_five_in_row_iff_run [OF rect e1, of Player_X] r1
  have "five_through (place (row_of_four Player_X) (3, 2) Player_X) Player_X (3, 2)" by simp
  moreover from creates_five_in_row_iff_run [OF rect e2, of Player_X] r2
  have "\<not> five_through (place (row_of_four Player_X) (0, 0) Player_X) Player_X (0, 0)" by simp
  ultimately show ?thesis using rect e1 e2 by simp
qed

text \<open>
  C4. For every board, move and player the call of \<open>_creates_five_in_row\<close> comes to an
  end, and whenever it returns a value, true or false, the board it leaves is the board
  it was given.
\<close>

theorem creates_five_in_row_restores_board:
  "\<exists>res board'. creates_five_in_row board m p = Some (res, board') \<and>
     (\<forall>found. res = Inr found \<longrightarrow> board' = board)"
  by (rule creates_five_in_row_frame)

theorem creates_five_in_row_restores_board_witness:
  "creates_five_in_row (row_of_four Player_X) (3, 7) Player_X
     = Some (Inr True, row_of_four Player_X) \<and>
   creates_five_in_row (row_of_four Player_X) (3, 4) Player_X
     = Some (Inr False, row_of_four Player_X)"
proof -
  have r1: "map_option fst (creates_five_in_row (row_of_four Player_X) (3, 7) Player_X)
      = Some (Inr True)" by code_simp
  have r2: "map_option fst (creates_five_in_row (row_of_four Player_X) (3, 4) Player_X)
      = Some (Inr False)" by code_simp
  from creates_five_in_row_restores_board [of "row_of_four Player_X" "(3, 7)" Player_X] r1
  have "creates_five_in_row (row_of_four Player_X) (3, 7) Player_X
     = Some (Inr True, row_of_four Player_X)" by auto
  moreover
  from creates_five_in_row_restores_board [of "row_of_four Player_X" "(3, 4)" Player_X] r2
  have "creates_five_in_row (row_of_four Player_X) (3, 4) Player_X
     = Some (Inr False, row_of_four Player_X)" by auto
  ultimately show ?thesis by simp
qed

text \<open>
  C9, as the code has it. A move whose cell holds a stone does not make
  \<open>_creates_five_in_row\<close> fail: the guard \<open>if board[row][col] is not None\<close> returns false,
  with the board untouched. The theorem after the counterexample states it for every
  board; the cell is read as the source reads it, \<open>board[row][col]\<close>.
\<close>

theorem occupied_cell_no_error_counterexample:
  "get_cell (row_of_four Player_X) 3 3 = Inr (Some Player_X) \<and>
   creates_five_in_row (row_of_four Player_X) (3, 3) Player_X
     = Some (Inr False, row_of_four Player_X)"
  by code_simp

text \<open>
  C9, amended. For every board and every move whose cell is not empty,
  \<open>_creates_five_in_row\<close> returns false and leaves the board as it was; it raises no
  error.
\<close>

theorem occupied_cell_returns_false:
  assumes "get_cell board (fst m) (snd m) = Inr (Some q)"
  shows "creates_five_in_row board m p = Some (Inr False, board)"
  using assms by (cases m) (simp add: creates_five_in_row_def)

theorem occupied_cell_returns_false_witness:
  "get_cell centre_taken 3 4 = Inr (Some Player_O) \<and>
   creates_five_in_row centre_taken (3, 4) Player_X = Some (Inr False, centre_taken)"
proof -
  have h: "get_cell centre_taken (fst (3, 4)) (snd (3, 4)) = Inr (Some Player_O)"
    by code_simp
  from occupied_cell_returns_false [OF h, of Player_X] h show ?thesis by simp
qed

section \<open>The position scorer\<close>

text \<open>
  C5. On a grid, \<open>_evaluate_move\<close> returns for every move the centrality term
  \<open>max(0, 7 - (|row - 3.5| + |col - 3.5|))\<close> plus \<open>2\<close> for each of the eight neighbours
  that is on the board and not empty, whichever player holds it, and nothing else. On
  the empty board the move \<open>(3,3)\<close> scores more than the move \<open>(0,0)\<close>.
\<close>

theorem evaluate_move_is_spec_score:
  "(rectangular board \<longrightarrow> evaluate_move board m p = Inr (spec_score board m)) \<and>
   (\<exists>s0 s3. evaluate_move empty_board (0, 0) p = Inr s0 \<and>
             evaluate_move empty_board (3, 3) p = Inr s3 \<and> s0 < s3)"
proof -
  have rect: "rectangular empty_board" by code_simp
  have s0: "spec_score empty_board (0, 0) = 0" by code_simp
  have s3: "spec_score empty_board (3, 3) = 6" by code_simp
  have "evaluate_move empty_board (0, 0) p = Inr 0"
    using evaluate_move_rect [OF rect, of "(0, 0)" p] s0 by simp
  moreover have "evaluate_move empty_board (3, 3) p = Inr 6"
    using evaluate_move_rect [OF rect, of "(3, 3)" p] s3 by simp
  ultimately have "\<exists>s0 s3. evaluate_move empty_board (0, 0) p = Inr s0 \<and>
             evaluate_move empty_board (3, 3) p = Inr s3 \<and> s0 < s3" by simp
  then show ?thesis using evaluate_move_rect by blast
qed

theorem evaluate_move_is_spec_score_witness:
  "rectangular centre_taken \<and> evaluate_move centre_taken (2, 3) Player_X = Inr 9"
proof -
  have rect: "rectangular centre_taken" by code_simp
  have "spec_score centre_taken (2, 3) = 9" by code_simp
  with evaluate_move_is_spec_score [of centre_taken "(2, 3)" Player_X] rect
  show ?thesis by simp
qed

text \<open>
  C10. The player given to \<open>_evaluate_move\<close> has no influence on the score: for every
  board and move, any two players get the same result.
\<close>

theorem evaluate_move_ignores_player:
  "evaluate_move board m p = evaluate_move board m q"
  by (simp add: evaluate_move_def)

section \<open>The fallback move selector\<close>

text \<open>
  The theorems of this section are about a grid and a list of legal moves that are all
  on the board, as the framework supplies them. \<open>would_win board m p\<close> says that
  \<open>_creates_five_in_row(board, m, p)\<close> returns true.
\<close>

text \<open>
  C2. When some legal move wins for the current player, \<open>_get_strategic_move\<close> returns
  the first winning move of the list of legal moves: the list splits into moves that do
  not win, the returned move, which wins, and the rest. No score is looked at.
\<close>

theorem selector_returns_first_win:
  assumes "rectangular board" and "\<forall>m \<in> set legal. on_board board m"
    and "\<exists>m \<in> set legal. would_win board m p"
  shows "\<exists>pre m post. legal = pre @ m # post \<and> (\<forall>m' \<in> set pre. \<not> would_win board m' p) \<and>
           would_win board m p \<and> get_strategic_move board legal p = Some (Inr m, board)"
proof -
  from find_exists [OF assms(3)] obtain m
    where f: "find (\<lambda>m. would_win board m p) legal = Some m" by blast
  from find_first [OF f] obtain pre post
    where "legal = pre @ m # post" "would_win board m p" "\<forall>y \<in> set pre. \<not> would_win board y p"
    by blast
  with selector_win [OF assms(1,2) f] show ?thesis by blast
qed

text \<open>
  On the board where the player holds \<open>(3,3)\<close> to \<open>(3,6)\<close> the selector returns the win
  \<open>(3,2)\<close>, although the legal move \<open>(2,4)\<close> has the higher score.
\<close>

theorem selector_returns_first_win_witness:
  "rectangular (row_of_four Player_X) \<and>
   would_win (row_of_four Player_X) (3, 2) Player_X \<and>
   evaluate_move (row_of_four Player_X) (3, 2) Player_X = Inr 7 \<and>
   evaluate_move (row_of_four Player_X) (2, 4) Player_X = Inr 11 \<and>
   get_strategic_move (row_of_four Player_X) (empty_cells (row_of_four Player_X)) Player_X
     = Some (Inr (3, 2), row_of_four Player_X)"
proof -
  let ?b = "row_of_four Player_X"
  have some: "\<exists>m \<in> set (empty_cells ?b). would_win ?b m Player_X"
    using row_x_first_win by (metis find_Some_iff nth_mem)
  from selector_returns_first_win [OF row_x_rect row_x_legal some] obtain pre m post where
    split: "empty_cells ?b = pre @ m # post" "\<forall>m' \<in> set pre. \<not> would_win ?b m' Player_X"
      "would_win ?b m Player_X"
    and res: "get_strategic_move ?b (empty_cells ?b) Player_X = Some (Inr m, ?b)"
    by blast
  from find_append_first [of pre "\<lambda>m. would_win ?b m Player_X" m post] split row_x_first_win
  have m: "m = (3, 2)" by simp
  have s1: "spec_score ?b (3, 2) = 7" by code_simp
  have s2: "spec_score ?b (2, 4) = 11" by code_simp
  from m split res s1 s2 row_x_rect show ?thesis
    by (simp add: evaluate_move_rect)
qed

text \<open>
  C3. When no legal move wins for the current player \<open>p\<close> and some legal move would win
  for the opponent, \<open>_get_strategic_move\<close> returns the first legal move on which the win
  detector holds for the opponent. The opponent is any player \<open>q\<close> other than \<open>p\<close>; the
  theorem does not name the selector's own computation of it.
\<close>

theorem selector_returns_first_block:
  assumes "rectangular board" and "\<forall>m \<in> set legal. on_board board m"
    and "\<forall>m \<in> set legal. \<not> would_win board m p"
    and "q \<noteq> p"
    and "\<exists>m \<in> set legal. would_win board m q"
  shows "\<exists>pre m post. legal = pre @ m # post \<and>
           (\<forall>m' \<in> set pre. \<not> would_win board m' q) \<and>
           would_win board m q \<and>
           get_strategic_move board legal p = Some (Inr m, board)"
proof -
  from assms(4) have opp: "opp_player p = q" by (rule opp_player_other)
  from assms(3) have none: "find (\<lambda>m. would_win board m p) legal = None"
    by (rule find_none)
  from find_exists [OF assms(5)] obtain m
    where f: "find (\<lambda>m. would_win board m q) legal = Some m" by blast
  from find_first [OF f] obtain pre post
    where split: "legal = pre @ m # post" "would_win board m q"
      "\<forall>y \<in> set pre. \<not> would_win board y q"
    by blast
  from f opp have "find (\<lambda>m. would_win board m (opp_player p)) legal = Some m" by simp
  from selector_block [OF assms(1,2) none this] split show ?thesis by blast
qed

text \<open>
  Both ways round: \<open>Player_X\<close> to move against the four of \<open>Player_O\<close>, and
  \<open>Player_O\<close> to move against the four of \<open>Player_X\<close>. The selector blocks at \<open>(3,2)\<close>.
\<close>

theorem selector_returns_first_block_witness:
  "rectangular (row_of_four Player_O) \<and>
   would_win (row_of_four Player_O) (3, 2) Player_O \<and>
   get_strategic_move (row_of_four Player_O) (empty_cells (row_of_four Player_O)) Player_X
     = Some (Inr (3, 2), row_of_four Player_O) \<and>
   rectangular (row_of_four Player_X) \<and>
   would_win (row_of_four Player_X) (3, 2) Player_X \<and>
   get_strategic_move (row_of_four Player_X) (empty_cells (row_of_four Player_X)) Player_O
     = Some (Inr (3, 2), row_of_four Player_X)"
proof -
  let ?bo = "row_of_four Player_O" and ?bx = "row_of_four Player_X"
  have some_o: "\<exists>m \<in> set (empty_cells ?bo). would_win ?bo m Player_O"
    using row_o_first_block by (metis find_Some_iff nth_mem)
  have ox: "Player_O \<noteq> Player_X" by simp
  from selector_returns_first_block [OF row_o_rect row_o_legal row_o_no_win ox some_o]
  obtain pre m post where
    split: "empty_cells ?bo = pre @ m # post" "\<forall>m' \<in> set pre. \<not> would_win ?bo m' Player_O"
      "would_win ?bo m Player_O"
    and res: "get_strategic_move ?bo (empty_cells ?bo) Player_X = Some (Inr m, ?bo)"
    by blast
  from find_append_first [of pre "\<lambda>m. would_win ?bo m Player_O" m post] split row_o_first_block
  have m: "m = (3, 2)" by simp
  have some_x: "\<exists>m \<in> set (empty_cells ?bx). would_win ?bx m Player_X"
    using row_x_first_win by (metis find_Some_iff nth_mem)
  have xo: "Player_X \<noteq> Player_O" by simp
  from selector_returns_first_block [OF row_x_rect row_x_legal row_x_no_win_o xo some_x]
  obtain pre' m' post' where
    split': "empty_cells ?bx = pre' @ m' # post'"
      "\<forall>y \<in> set pre'. \<not> would_win ?bx y Player_X" "would_win ?bx m' Player_X"
    and res': "get_strategic_move ?bx (empty_cells ?bx) Player_O = Some (Inr m', ?bx)"
    by blast
  from find_append_first [of pre' "\<lambda>m. would_win ?bx m Player_X" m' post'] split' row_x_first_win
  have m': "m' = (3, 2)" by simp
  from m split res m' split' res' row_o_rect row_x_rect show ?thesis by simp
qed

text \<open>
  C7. When no legal move wins for the current player and none for the opponent, and one
  of the cells \<open>(3,3)\<close>, \<open>(3,4)\<close>, \<open>(4,3)\<close>, \<open>(4,4)\<close> is a legal move,
  \<open>_get_strategic_move\<close> returns the first cell of that list, in that order, which is a
  legal move.
\<close>

theorem selector_returns_first_centre:
  assumes "rectangular board" and "\<forall>m \<in> set legal. on_board board m"
    and "\<forall>m \<in> set legal. \<not> would_win board m p"
    and "\<forall>m \<in> set legal. \<not> would_win board m (opp_player p)"
    and "\<exists>c \<in> set [(3, 3), (3, 4), (4, 3), (4, 4)]. c \<in> set legal"
  shows "\<exists>pre c post. [(3, 3), (3, 4), (4, 3), (4, 4)] = pre @ c # post \<and>
           (\<forall>c' \<in> set pre. c' \<notin> set legal) \<and> c \<in> set legal \<and>
           get_strategic_move board legal p = Some (Inr c, board)"
proof -
  from assms(3) have n1: "find (\<lambda>m. would_win board m p) legal = None"
    by (rule find_none)
  from assms(4) have n2: "find (\<lambda>m. would_win board m (opp_player p)) legal = None"
    by (rule find_none)
  from find_exists [OF assms(5)] obtain c
    where f: "find (\<lambda>m. m \<in> set legal) [(3, 3), (3, 4), (4, 3), (4, 4)] = Some c" by blast
  then have f': "find (\<lambda>m. m \<in> set legal) center_moves = Some c"
    by (simp add: center_moves_def)
  from find_first [OF f] obtain pre post
    where "[(3, 3), (3, 4), (4, 3), (4, 4)] = pre @ c # post" "c \<in> set legal"
      "\<forall>y \<in> set pre. y \<notin> set legal"
    by blast
  with selector_center [OF assms(1,2) n1 n2 f'] show ?thesis by blast
qed

text \<open>
  With one stone on \<open>(3,3)\<close> and every other cell legal, the selector returns \<open>(3,4)\<close>.
\<close>

theorem selector_returns_first_centre_witness:
  "rectangular centre_one \<and>
   get_strategic_move centre_one (empty_cells centre_one) Player_O
     = Some (Inr (3, 4), centre_one)"
proof -
  let ?l = "empty_cells centre_one"
  have opp: "opp_player Player_O = Player_X" by (simp add: opp_player_def)
  have nw: "\<forall>m \<in> set ?l. \<not> would_win centre_one m (opp_player Player_O)"
    unfolding opp by (rule centre_one_no_win_x)
  have some: "\<exists>c \<in> set [(3, 3), (3, 4), (4, 3), (4, 4)]. c \<in> set ?l"
    using centre_one_first_centre by (metis find_Some_iff nth_mem)
  from selector_returns_first_centre
    [OF centre_one_rect centre_one_legal centre_one_no_win_o nw some]
  obtain pre c post where
    split: "[(3, 3), (3, 4), (4, 3), (4, 4)] = pre @ c # post" "\<forall>c' \<in> set pre. c' \<notin> set ?l"
      "c \<in> set ?l"
    and res: "get_strategic_move centre_one ?l Player_O = Some (Inr c, centre_one)"
    by blast
  from find_append_first [of pre "\<lambda>m. m \<in> set ?l" c post] split centre_one_first_centre
  have "c = (3, 4)" by simp
  with res centre_one_rect show ?thesis by simp
qed

text \<open>
  C8. Given an empty list of legal moves \<open>_get_strategic_move\<close> raises an error
  (\<open>IndexError\<close>, from \<open>scored_moves[0]\<close>). Whenever it returns a move, on any board, the
  move is a member of the list it was given. On a grid, with a list of legal moves that
  is not empty and whose moves are on the board, it returns a move, and leaves the board
  as it was.
\<close>

theorem selector_returns_legal_move:
  "get_strategic_move board [] p = Some (Inl IndexError, board) \<and>
   (\<forall>m board'. get_strategic_move board legal p = Some (Inr m, board') \<longrightarrow> m \<in> set legal) \<and>
   (rectangular board \<and> (\<forall>m \<in> set legal. on_board board m) \<and> legal \<noteq> [] \<longrightarrow>
      (\<exists>m \<in> set legal. get_strategic_move board legal p = Some (Inr m, board)))"
proof (intro conjI allI impI)
  show "get_strategic_move board [] p = Some (Inl IndexError, board)"
    by (rule selector_empty)
next
  fix m board'
  assume "get_strategic_move board legal p = Some (Inr m, board')"
  then show "m \<in> set legal" by (rule selector_member)
next
  assume a: "rectangular board \<and> (\<forall>m \<in> set legal. on_board board m) \<and> legal \<noteq> []"
  then have rect: "rectangular board" and on: "\<forall>m \<in> set legal. on_board board m"
    and ne: "legal \<noteq> []" by simp_all
  have "\<exists>m. get_strategic_move board legal p = Some (Inr m, board)"
    unfolding get_strategic_move_rect [OF rect on] using ne
    by (simp split: option.splits)
  then obtain m where m: "get_strategic_move board legal p = Some (Inr m, board)" by blast
  then have "m \<in> set legal" by (rule selector_member)
  with m show "\<exists>m \<in> set legal. get_strategic_move board legal p = Some (Inr m, board)"
    by blast
qed

theorem selector_returns_legal_move_witness:
  "rectangular centre_taken \<and> empty_cells centre_taken \<noteq> [] \<and>
   get_strategic_move centre_taken [] Player_X = Some (Inl IndexError, centre_taken) \<and>
   (\<exists>m \<in> set (empty_cells centre_taken).
      get_strategic_move centre_taken (empty_cells centre_taken) Player_X
        = Some (Inr m, centre_taken))"
  using selector_returns_legal_move [of centre_taken Player_X "empty_cells centre_taken"]
    centre_taken_rect centre_taken_legal centre_taken_some_move
  by blast

text \<open>
  C6, as the code has it. The best-heuristic stage sorts the pairs \<open>(score, move)\<close> with
  \<open>sort(reverse=True)\<close> and takes the first: among the moves of highest score the
  largest pair \<open>(row, col)\<close> wins, not the first of the enumeration. With the four centre
  cells taken and the empty cells listed row by row, eight moves have the highest score
  \<open>9\<close>; \<open>(2,3)\<close> is the first of them in the list, and the selector returns \<open>(5,4)\<close>.
\<close>

theorem selector_tie_break_counterexample:
  "first_best centre_taken (empty_cells centre_taken) = Some (2, 3) \<and>
   evaluate_move centre_taken (2, 3) Player_X = Inr 9 \<and>
   evaluate_move centre_taken (5, 4) Player_X = Inr 9 \<and>
   get_strategic_move centre_taken (empty_cells centre_taken) Player_X
     = Some (Inr (5, 4), centre_taken)"
proof -
  let ?l = "empty_cells centre_taken"
  have opp: "opp_player Player_X = Player_O" by (simp add: opp_player_def)
  have n1: "find (\<lambda>m. would_win centre_taken m Player_X) ?l = None"
    using centre_taken_no_win_x by (rule find_none)
  have n2: "find (\<lambda>m. would_win centre_taken m (opp_player Player_X)) ?l = None"
    unfolding opp using centre_taken_no_win_o by (rule find_none)
  have n3: "find (\<lambda>m. m \<in> set ?l) center_moves = None"
    using centre_taken_no_centre by (simp add: find_None_iff)
  have s1: "spec_score centre_taken (2, 3) = 9" by code_simp
  have s2: "spec_score centre_taken (5, 4) = 9" by code_simp
  from selector_best [OF centre_taken_rect centre_taken_legal n1 n2 n3 centre_taken_some_move]
    centre_taken_best centre_taken_first_best s1 s2 centre_taken_rect
  show ?thesis by (simp add: evaluate_move_rect)
qed

text \<open>
  C6, amended. In the best-heuristic stage (no legal move wins for either player, no
  centre cell is legal), \<open>_get_strategic_move\<close> returns a legal move of the highest
  score, and among the legal moves that tie for the highest score the one whose pair
  \<open>(row, col)\<close> is the greatest in lexicographic order, whatever the order in which the
  legal moves are listed.
\<close>

theorem selector_best_is_greatest_pair:
  assumes "rectangular board" and "\<forall>m \<in> set legal. on_board board m"
    and "\<forall>m \<in> set legal. \<not> would_win board m p"
    and "\<forall>m \<in> set legal. \<not> would_win board m (opp_player p)"
    and "\<forall>c \<in> set center_moves. c \<notin> set legal"
    and "legal \<noteq> []"
  shows "\<exists>m s. get_strategic_move board legal p = Some (Inr m, board) \<and> m \<in> set legal \<and>
           evaluate_move board m p = Inr s \<and>
           (\<forall>m' \<in> set legal. \<exists>s'. evaluate_move board m' p = Inr s' \<and>
              (s' < s \<or> (s' = s \<and> (fst m' < fst m \<or> (fst m' = fst m \<and> snd m' \<le> snd m)))))"
proof -
  let ?best = "snd (Max (set (map (\<lambda>m. (spec_score board m, m)) legal)))"
  from assms(3) have n1: "find (\<lambda>m. would_win board m p) legal = None"
    by (rule find_none)
  from assms(4) have n2: "find (\<lambda>m. would_win board m (opp_player p)) legal = None"
    by (rule find_none)
  from assms(5) have n3: "find (\<lambda>m. m \<in> set legal) center_moves = None"
    by (simp add: find_None_iff)
  have res: "get_strategic_move board legal p = Some (Inr ?best, board)"
    using selector_best [OF assms(1,2) n1 n2 n3 assms(6)] .
  have score: "evaluate_move board m p = Inr (spec_score board m)" for m
    using assms(1) by (rule evaluate_move_rect)
  from best_move_rect [OF assms(6), of board] res score show ?thesis
    by (intro exI [of _ ?best] exI [of _ "spec_score board ?best"]) simp
qed

theorem selector_best_is_greatest_pair_witness:
  "\<exists>m s. get_strategic_move centre_taken (empty_cells centre_taken) Player_O
             = Some (Inr m, centre_taken) \<and>
     m \<in> set (empty_cells centre_taken) \<and>
     evaluate_move centre_taken m Player_O = Inr s \<and>
     (\<forall>m' \<in> set (empty_cells centre_taken). \<exists>s'. evaluate_move centre_taken m' Player_O = Inr s' \<and>
        (s' < s \<or> (s' = s \<and> (fst m' < fst m \<or> (fst m' = fst m \<and> snd m' \<le> snd m)))))"
proof -
  have opp: "opp_player Player_O = Player_X" by (simp add: opp_player_def)
  have nw: "\<forall>m \<in> set (empty_cells centre_taken). \<not> would_win centre_taken m (opp_player Player_O)"
    unfolding opp by (rule centre_taken_no_win_x)
  show ?thesis
    by (rule selector_best_is_greatest_pair
        [OF centre_taken_rect centre_taken_legal centre_taken_no_win_o nw
            centre_taken_no_centre centre_taken_some_move])
qed

end
